theory Spec2Isabelle
  imports Main "HOL-Library.Word" "HOL-Library.Signed_Division" "HOL-Library.Multiset"
begin

section \<open>findcc: scanning a byte stream for checksummed digit runs\<close>

text \<open>
  The program (\<^verbatim>\<open>findcc.go\<close>) reads its input one byte at a time, keeps the last
  \<^verbatim>\<open>numlen\<close> consecutive ASCII digits in the slice \<^verbatim>\<open>digits\<close>, and prints a line for
  every full window whose last digit is a valid check digit of the others.

  Go's \<^verbatim>\<open>int\<close> is 64 bits wide. The counters \<^verbatim>\<open>nread\<close> and \<^verbatim>\<open>nline\<close> grow by one per
  byte read, so they stay below \<open>2^63\<close> on every stream shorter than \<open>2^63\<close> bytes; the
  checksum accumulator stays between \<open>-9\<close> and \<open>9\<close>. They are modelled as \<open>int\<close>.
  Bytes are \<open>8 word\<close>; the one place where the source subtracts in \<^verbatim>\<open>byte\<close> arithmetic
  (the check digit of \<^verbatim>\<open>mod10Valid\<close>) wraps here as it does there.
\<close>

subsection \<open>Data\<close>

type_synonym byte = "8 word"

text \<open>The three command-line flags \<^verbatim>\<open>-n\<close>, \<^verbatim>\<open>-mod10\<close> and \<^verbatim>\<open>-q\<close>.\<close>

record config =
  numlen :: int
  mod10 :: bool
  quiet :: bool

text \<open>
  What one call \<^verbatim>\<open>input.Read(buf)\<close> gives back: the count \<^verbatim>\<open>n\<close>, the error
  (\<open>None\<close> is \<^verbatim>\<open>nil\<close>) and the content of \<^verbatim>\<open>buf[0]\<close> after the call.
\<close>

datatype go_error = EOF | ReadFailure

datatype read_result = ReadResult (rd_n: int) (rd_err: "go_error option") (rd_buf: byte)

text \<open>
  A line on standard output: the header, or a match with the three values handed to
  \<^verbatim>\<open>Printf("%6v  %4v  %v\n", ...)\<close>.
\<close>

datatype out_line = Header | Match int int "byte list"

text \<open>
  The variables of the read loop, the lines printed so far, and (as a ghost field) the
  windows on which a checksum validator has been called so far.
\<close>

record scan_state =
  digits :: "byte list"
  nline :: int
  nread :: int
  stdout :: "out_line list"
  calls :: "byte list list"

text \<open>
  How a run ends: \<^verbatim>\<open>mymain\<close> returns a value, or a slice operation panics, or the
  reads recorded so far are used up while the loop is still waiting for the next one.
\<close>

datatype outcome = Exit int | Panic | Reading

subsection \<open>Library functions used by the program\<close>

text \<open>
  \<^verbatim>\<open>unicode.IsDigit(rune(b))\<close> for a byte \<open>b\<close>. The rune of a byte is at most
  \<^verbatim>\<open>MaxLatin1\<close>, where Go's standard library answers \<^verbatim>\<open>'0' <= r && r <= '9'\<close>.
\<close>

definition IsDigit :: "byte \<Rightarrow> bool" where
  "IsDigit b \<longleftrightarrow> (48::int) \<le> uint b \<and> uint b \<le> 57"

text \<open>
  Modelled from the spec: \<^verbatim>\<open>luhn.Valid\<close> of the package
  \<^verbatim>\<open>github.com/joeljunstrom/go-luhn\<close>, which is imported by the program and is not
  part of its sources. Starting from the rightmost payload digit and moving left, every
  second digit is doubled, and 9 is subtracted where doubling gives 10 or more; the
  window is valid iff the sum of these values and the check digit is a multiple of 10.
  \<open>luhn_sum\<close> walks the window from its right end; its flag says whether the digit at
  hand is doubled.
\<close>

fun luhn_sum :: "bool \<Rightarrow> int list \<Rightarrow> int" where
  "luhn_sum dbl [] = 0"
| "luhn_sum dbl (d # ds) =
     (if dbl then (if 10 \<le> 2 * d then 2 * d - 9 else 2 * d) else d) + luhn_sum (\<not> dbl) ds"

definition luhn_Valid :: "byte list \<Rightarrow> bool" where
  "luhn_Valid w \<longleftrightarrow> luhn_sum False (rev (map (\<lambda>b. uint b - 48) w)) mod 10 = 0"

subsection \<open>The modulus-10 validator\<close>

text \<open>
  The loop \<^verbatim>\<open>for _, d := range ... { exp = (exp + (int(d) - '0')) % 10 }\<close>. Go's
  \<^verbatim>\<open>%\<close> truncates towards zero, which is \<open>smod\<close>.
\<close>

fun mod10_loop :: "int \<Rightarrow> byte list \<Rightarrow> int" where
  "mod10_loop exp [] = exp"
| "mod10_loop exp (d # ds) = mod10_loop ((exp + (uint d - 48)) smod 10) ds"

text \<open>
  On the empty slice \<^verbatim>\<open>digits[:len(digits)-1]\<close> is \<^verbatim>\<open>digits[:-1]\<close>, which panics.
  The check digit is converted after the subtraction, \<^verbatim>\<open>int(digits[len(digits)-1]-'0')\<close>,
  so the subtraction is the byte's.
\<close>

definition mod10Valid :: "byte list \<Rightarrow> bool option" where
  "mod10Valid ds =
     (if length ds = 0 then None
      else Some (uint (last ds - 48) = mod10_loop 0 (butlast ds)))"

subsection \<open>The read loop\<close>

text \<open>
  \<^verbatim>\<open>for len(digits) > *numlen { digits = digits[1:] }\<close>. Slicing the empty slice from
  1 panics, which a negative \<^verbatim>\<open>numlen\<close> reaches.
\<close>

fun trim :: "int \<Rightarrow> byte list \<Rightarrow> byte list option" where
  "trim n ds =
     (if n < int (length ds)
      then (case ds of [] \<Rightarrow> None | _ # t \<Rightarrow> trim n t)
      else Some ds)"

declare trim.simps [simp del]

text \<open>
  The validator chosen by \<^verbatim>\<open>-mod10\<close>. The condition of the source,
  \<^verbatim>\<open>(*mod10 && mod10Valid(digits)) || (!*mod10 && luhn.Valid(string(digits)))\<close>,
  calls exactly one of the two.
\<close>

definition validate :: "config \<Rightarrow> byte list \<Rightarrow> bool option" where
  "validate cfg ds = (if mod10 cfg then mod10Valid ds else Some (luhn_Valid ds))"

text \<open>
  One pass through the loop body after a successful read of the byte \<open>b\<close>;
  \<open>None\<close> is a panic.
\<close>

definition body :: "config \<Rightarrow> byte \<Rightarrow> scan_state \<Rightarrow> scan_state option" where
  "body cfg b s =
     (let s1 = s\<lparr>nread := nread s + 1\<rparr>;
          s2 = (if b = 10 then s1\<lparr>nline := nline s1 + 1\<rparr> else s1)
      in if \<not> IsDigit b
         then Some (if 0 < length (digits s2) then s2\<lparr>digits := []\<rparr> else s2)
         else (case trim (numlen cfg) (digits s2 @ [b]) of
                 None \<Rightarrow> None
               | Some ds \<Rightarrow>
                   if int (length ds) = numlen cfg
                   then (case validate cfg ds of
                           None \<Rightarrow> None
                         | Some ok \<Rightarrow>
                             Some (s2\<lparr>digits := ds,
                                      calls := calls s2 @ [ds],
                                      stdout := (if ok
                                        then stdout s2 @
                                          [Match (nread s2 - int (length ds) - 1) (nline s2) ds]
                                        else stdout s2)\<rparr>))
                   else Some (s2\<lparr>digits := ds\<rparr>)))"

text \<open>
  The loop \<^verbatim>\<open>for { ... }\<close> over the results of the successive reads. It returns only
  from inside: 0 at end of file, -3 on any other error, -4 on a read of nothing without
  an error. The error is looked at first, so a byte that comes together with an error is
  dropped. The list holds the reads that have returned so far; when it is used up the
  loop has not returned and is blocked in the next read (\<open>Reading\<close>), so that a claim
  that \<^verbatim>\<open>mymain\<close> returns is a claim that the outcome is an \<open>Exit\<close>.
\<close>

fun loop :: "config \<Rightarrow> read_result list \<Rightarrow> scan_state \<Rightarrow> outcome \<times> scan_state" where
  "loop cfg [] s = (Reading, s)"
| "loop cfg (r # rs) s =
     (if rd_err r \<noteq> None
      then (if rd_err r = Some EOF then (Exit 0, s) else (Exit (- 3), s))
      else if rd_n r = 0 then (Exit (- 4), s)
      else (case body cfg (rd_buf r) s of
              None \<Rightarrow> (Panic, s)
            | Some s' \<Rightarrow> loop cfg rs s'))"

text \<open>The state in which the loop starts, after the header has been printed or not.\<close>

definition init :: "config \<Rightarrow> scan_state" where
  "init cfg =
     \<lparr>digits = [], nline = 0, nread = 0,
      stdout = (if quiet cfg then [] else [Header]), calls = []\<rparr>"

text \<open>Nothing read and nothing printed: \<^verbatim>\<open>mymain\<close> returns before the header.\<close>

definition nothing :: scan_state where
  "nothing = \<lparr>digits = [], nline = 0, nread = 0, stdout = [], calls = []\<rparr>"

text \<open>
  \<^verbatim>\<open>mymain\<close>, given the flags, the number of positional arguments
  (\<^verbatim>\<open>flag.NArg()\<close>), whether \<^verbatim>\<open>os.Open\<close> of the one argument succeeds, and what the
  reads of the chosen input return.
\<close>

definition mymain :: "config \<Rightarrow> nat \<Rightarrow> bool \<Rightarrow> read_result list \<Rightarrow> outcome \<times> scan_state" where
  "mymain cfg narg opens reads =
     (if 1 = narg
      then (if \<not> opens then (Exit (- 1), nothing) else loop cfg reads (init cfg))
      else if 1 < narg then (Exit (- 2), nothing)
      else loop cfg reads (init cfg))"

subsection \<open>Notions for stating the properties\<close>

text \<open>A successful read of the byte \<open>b\<close>, and the bytes of a string.\<close>

definition got :: "byte \<Rightarrow> read_result" where
  "got b = ReadResult 1 None b"

definition bytes :: "string \<Rightarrow> byte list" where
  "bytes cs = map of_char cs"

text \<open>
  The loop run from its initial state over successful reads of the bytes \<open>bs\<close>, one
  byte per read: the outcome is \<open>Reading\<close> unless an iteration panics, and the state is
  the one in which the loop waits for its next read.
\<close>

definition scan :: "config \<Rightarrow> byte list \<Rightarrow> outcome \<times> scan_state" where
  "scan cfg bs = loop cfg (map got bs) (init cfg)"

text \<open>The number of newline bytes in \<open>bs\<close>.\<close>

definition newlines :: "byte list \<Rightarrow> int" where
  "newlines bs = int (length (filter (\<lambda>b. b = 10) bs))"

text \<open>
  The run of digits at the end of \<open>bs\<close>, cut down to its last \<open>N\<close> bytes: what
  the slice \<^verbatim>\<open>digits\<close> holds once \<open>bs\<close> has been read (lemma \<open>scan_invariant\<close>).
\<close>

definition window :: "nat \<Rightarrow> byte list \<Rightarrow> byte list" where
  "window N bs = rev (take N (takeWhile IsDigit (rev bs)))"

section \<open>Evaluation on concrete inputs\<close>

text \<open>The equations that run the program on a concrete input.\<close>

lemmas run_simps = scan_def mymain_def init_def nothing_def got_def bytes_def body_def IsDigit_def
  trim.simps validate_def mod10Valid_def luhn_Valid_def newlines_def smod_int_alt_def

section \<open>The modulus-10 validator\<close>

text \<open>On non-negative operands Go's remainder is the mathematical one.\<close>

lemma smod_10_nonneg: "0 \<le> (a::int) \<Longrightarrow> a smod 10 = a mod 10"
  by (simp add: smod_int_alt_def sgn_if)

text \<open>The byte subtraction of the check digit does not wrap on a digit.\<close>

lemma digit_value: "IsDigit b \<Longrightarrow> uint (b - 48) = uint b - 48"
  unfolding IsDigit_def by (simp add: uint_sub_if')

lemma sum_list_mset_cong:
  "mset p = mset q \<Longrightarrow> sum_list (map f p) = (sum_list (map f q) :: int)"
proof -
  assume "mset p = mset q"
  then have "sum_mset (image_mset f (mset p)) = sum_mset (image_mset f (mset q))" by simp
  then show ?thesis by (simp only: mset_map [symmetric] sum_mset_sum_list)
qed

text \<open>
  On digits the accumulator never goes negative, so the loop computes the sum of the
  digit values modulo 10.
\<close>

lemma mod10_loop_sum:
  "0 \<le> e \<Longrightarrow> e < 10 \<Longrightarrow> \<forall>b\<in>set ds. IsDigit b \<Longrightarrow>
   mod10_loop e ds = (e + (\<Sum>b\<leftarrow>ds. uint b - 48)) mod 10"
proof (induction ds arbitrary: e)
  case Nil
  then show ?case by simp
next
  case (Cons d ds)
  have d: "0 \<le> uint d - 48" using Cons.prems(3) by (simp add: IsDigit_def)
  have nn: "0 \<le> e + (uint d - 48)" using Cons.prems(1) d by simp
  have "mod10_loop e (d # ds) = mod10_loop ((e + (uint d - 48)) mod 10) ds"
    by (simp add: smod_10_nonneg [OF nn])
  also have "\<dots> = ((e + (uint d - 48)) mod 10 + (\<Sum>b\<leftarrow>ds. uint b - 48)) mod 10"
    using Cons.prems(3) by (intro Cons.IH) simp_all
  also have "\<dots> = (e + (\<Sum>b\<leftarrow>d # ds. uint b - 48)) mod 10"
    by (simp add: mod_add_left_eq add.assoc)
  finally show ?case .
qed

section \<open>One pass through the loop body\<close>

lemma trim_nonneg: "0 \<le> n \<Longrightarrow> trim n ds = Some (drop (length ds - nat n) ds)"
proof (induction ds)
  case Nil
  then show ?case by (simp add: trim.simps)
next
  case (Cons x t)
  show ?case
  proof (cases "n < int (length (x # t))")
    case True
    then have "nat n \<le> length t" using Cons.prems by simp
    then have "length (x # t) - nat n = Suc (length t - nat n)" by simp
    then show ?thesis
      using True Cons by (simp add: trim.simps [of n "x # t"])
  next
    case False
    then have "length (x # t) - nat n = 0" by simp
    then show ?thesis
      using False by (simp add: trim.simps [of n "x # t"])
  qed
qed

lemma trim_negative: "n < 0 \<Longrightarrow> trim n ds = None"
  by (induction ds) (simp_all add: trim.simps)

lemma IsDigit_not_newline: "IsDigit b \<Longrightarrow> b \<noteq> 10"
  by (auto simp: IsDigit_def)

lemma IsDigit_ascii: "IsDigit b \<longleftrightarrow> b \<in> {48, 49, 50, 51, 52, 53, 54, 55, 56, 57}"
proof
  assume "IsDigit b"
  then have "uint b = 48 \<or> uint b = 49 \<or> uint b = 50 \<or> uint b = 51 \<or> uint b = 52 \<or>
      uint b = 53 \<or> uint b = 54 \<or> uint b = 55 \<or> uint b = 56 \<or> uint b = 57"
    unfolding IsDigit_def by arith
  then show "b \<in> {48, 49, 50, 51, 52, 53, 54, 55, 56, 57}"
    by (auto simp: word_uint_eq_iff)
next
  assume "b \<in> {48, 49, 50, 51, 52, 53, 54, 55, 56, 57}"
  then show "IsDigit b" by (auto simp: IsDigit_def)
qed

lemma validate_nonempty: "ds \<noteq> [] \<Longrightarrow> validate cfg ds \<noteq> None"
  by (simp add: validate_def mod10Valid_def)

lemma body_nondigit:
  "\<not> IsDigit b \<Longrightarrow>
   body cfg b s =
     Some (s\<lparr>nread := nread s + 1, nline := (if b = 10 then nline s + 1 else nline s),
             digits := []\<rparr>)"
  by (cases s) (auto simp: body_def Let_def)

lemma body_digit:
  fixes cfg :: config and b :: byte and s :: scan_state
  assumes "1 \<le> numlen cfg" and "IsDigit b"
  defines "ds \<equiv> drop (length (digits s) + 1 - nat (numlen cfg)) (digits s @ [b])"
  shows "body cfg b s =
     Some (if length ds = nat (numlen cfg)
           then s\<lparr>nread := nread s + 1, digits := ds, calls := calls s @ [ds],
                  stdout := (if validate cfg ds = Some True
                    then stdout s @ [Match (nread s - numlen cfg) (nline s) ds]
                    else stdout s)\<rparr>
           else s\<lparr>nread := nread s + 1, digits := ds\<rparr>)"
proof -
  have t: "trim (numlen cfg) (digits s @ [b]) = Some ds"
    using assms(1) by (simp add: trim_nonneg ds_def)
  have len: "int (length ds) = numlen cfg \<longleftrightarrow> length ds = nat (numlen cfg)"
    using assms(1) by auto
  have "ds \<noteq> []" using assms(1) by (simp add: ds_def)
  then obtain ok where ok: "validate cfg ds = Some ok"
    using validate_nonempty [of ds cfg] by auto
  show ?thesis
    using assms(1,2) IsDigit_not_newline [OF assms(2)] t ok len
    by (cases s) (simp add: body_def)
qed

section \<open>The loop over the reads\<close>

lemma loop_append:
  "loop cfg (rs @ rs') s =
     (case loop cfg rs s of (Reading, s') \<Rightarrow> loop cfg rs' s' | r \<Rightarrow> r)"
  by (induction rs arbitrary: s) (simp_all split: option.splits)

lemma loop_got: "loop cfg [got b] s = (case body cfg b s of None \<Rightarrow> (Panic, s) | Some s' \<Rightarrow> (Reading, s'))"
  by (simp add: got_def split: option.splits)

lemma scan_snoc:
  "scan cfg bs = (Reading, s) \<Longrightarrow>
   scan cfg (bs @ [b]) = (case body cfg b s of None \<Rightarrow> (Panic, s) | Some s' \<Rightarrow> (Reading, s'))"
  by (simp add: scan_def loop_append loop_got del: loop.simps)

text \<open>
  With a window length of at least 1 no iteration panics, the window is never longer
  than the window length, and the validators only ever see windows of that length.
\<close>

lemma init_safe:
  "length (digits (init cfg)) \<le> n" "\<forall>w\<in>set (calls (init cfg)). length w = n"
  by (simp_all add: init_def)

lemma body_safe:
  assumes "1 \<le> numlen cfg" and "length (digits s) \<le> nat (numlen cfg)"
    and "\<forall>w\<in>set (calls s). length w = nat (numlen cfg)"
  shows "\<exists>s'. body cfg b s = Some s' \<and> length (digits s') \<le> nat (numlen cfg) \<and>
     (\<forall>w\<in>set (calls s'). length w = nat (numlen cfg))"
proof (cases "IsDigit b")
  case True
  define ds where "ds = drop (length (digits s) + 1 - nat (numlen cfg)) (digits s @ [b])"
  have "length ds = length (digits s) + 1 - (length (digits s) + 1 - nat (numlen cfg))"
    unfolding ds_def length_drop by simp
  then have len: "length ds \<le> nat (numlen cfg)"
    using assms(2) by arith
  show ?thesis
    using assms(3) len
    unfolding body_digit [OF assms(1) True, of s, folded ds_def]
    by (cases "length ds = nat (numlen cfg)") simp_all
next
  case False
  then show ?thesis
    using assms(3) by (simp add: body_nondigit)
qed

lemma loop_safe:
  assumes "1 \<le> numlen cfg"
  shows "length (digits s) \<le> nat (numlen cfg) \<Longrightarrow>
     \<forall>w\<in>set (calls s). length w = nat (numlen cfg) \<Longrightarrow>
     fst (loop cfg rs s) \<noteq> Panic \<and>
     length (digits (snd (loop cfg rs s))) \<le> nat (numlen cfg) \<and>
     (\<forall>w\<in>set (calls (snd (loop cfg rs s))). length w = nat (numlen cfg))"
proof (induction rs arbitrary: s)
  case Nil
  then show ?case by simp
next
  case (Cons r rs)
  obtain s' where s': "body cfg (rd_buf r) s = Some s'"
    "length (digits s') \<le> nat (numlen cfg)" "\<forall>w\<in>set (calls s'). length w = nat (numlen cfg)"
    using body_safe [OF assms Cons.prems] by blast
  show ?case
    using Cons.prems Cons.IH [OF s'(2,3)] s'(1) by simp
qed

section \<open>What the loop variables hold after the bytes read so far\<close>

lemma window_snoc:
  "window N (bs @ [b]) = (if IsDigit b then drop (length (window N bs) + 1 - N) (window N bs @ [b]) else [])"
proof (cases N)
  case 0
  then show ?thesis by (simp add: window_def)
next
  case (Suc m)
  define tw where "tw = takeWhile IsDigit (rev bs)"
  have "rev (take N (b # tw)) = drop (length (take N tw) + 1 - N) (rev (take N tw) @ [b])"
  proof (cases "Suc m \<le> length tw")
    case True
    then have "take (Suc m) tw = take m tw @ [tw ! m]"
      by (simp add: take_Suc_conv_app_nth)
    then show ?thesis using True Suc by simp
  next
    case False
    then show ?thesis using Suc by simp
  qed
  then show ?thesis by (simp add: window_def tw_def)
qed

lemma window_digits: "b \<in> set (window N bs) \<Longrightarrow> IsDigit b"
  unfolding window_def by (auto dest: in_set_takeD set_takeWhileD)

lemma window_full:
  assumes "length (window N bs) = N"
  shows "N \<le> length bs \<and> window N bs = drop (length bs - N) bs"
proof -
  define tw where "tw = takeWhile IsDigit (rev bs)"
  have le: "N \<le> length tw" using assms by (simp add: window_def tw_def)
  have "length tw \<le> length (rev bs)" unfolding tw_def by (rule length_takeWhile_le)
  then have n: "N \<le> length bs" using le by simp
  have "rev bs = tw @ dropWhile IsDigit (rev bs)" by (simp add: tw_def)
  then have "take N (rev bs) = take N (tw @ dropWhile IsDigit (rev bs))" by simp
  also have "\<dots> = take N tw" using le by simp
  finally have "rev (take N tw) = rev (take N (rev bs))" by simp
  then show ?thesis using n by (simp add: window_def tw_def rev_take)
qed

lemma window_run:
  assumes "pre = [] \<or> \<not> IsDigit (last pre)" and "\<forall>b\<in>set run. IsDigit b"
  shows "window N (pre @ run) = drop (length run - N) run"
proof -
  have "takeWhile IsDigit (rev pre) = []"
    using assms(1) by (cases pre rule: rev_cases) auto
  moreover have "takeWhile IsDigit (rev run @ rev pre) = rev run @ takeWhile IsDigit (rev pre)"
    using assms(2) by (intro takeWhile_append2) simp
  ultimately show ?thesis by (simp add: window_def rev_take)
qed

lemma newlines_digits: "\<forall>b\<in>set ds. IsDigit b \<Longrightarrow> newlines ds = 0"
  by (auto simp: newlines_def filter_empty_conv dest: IsDigit_not_newline)

lemma newlines_append: "newlines (xs @ ys) = newlines xs + newlines ys"
  by (simp add: newlines_def)

text \<open>
  After the bytes \<open>bs\<close> the loop is waiting for its next read, \<^verbatim>\<open>nread\<close> is their
  number, \<^verbatim>\<open>nline\<close> the number of newlines among them, and \<^verbatim>\<open>digits\<close> the digits
  at their end, at most \<^verbatim>\<open>numlen\<close> of them.
\<close>

lemma scan_invariant:
  assumes "1 \<le> numlen cfg"
  shows "\<exists>s. scan cfg bs = (Reading, s) \<and> nread s = int (length bs) \<and>
     nline s = newlines bs \<and> digits s = window (nat (numlen cfg)) bs"
proof (induction bs rule: rev_induct)
  case Nil
  then show ?case by (simp add: scan_def init_def newlines_def window_def)
next
  case (snoc b bs)
  then obtain s where s: "scan cfg bs = (Reading, s)" "nread s = int (length bs)"
    "nline s = newlines bs" "digits s = window (nat (numlen cfg)) bs" by blast
  show ?case
  proof (cases "IsDigit b")
    case True
    then show ?thesis
      using s IsDigit_not_newline [OF True]
      by (simp add: scan_snoc [OF s(1)] body_digit [OF assms True] window_snoc newlines_def)
  next
    case False
    then show ?thesis
      using s by (simp add: scan_snoc [OF s(1)] body_nondigit window_snoc newlines_def)
  qed
qed

text \<open>What reading one more byte adds to the validator calls and to the output.\<close>

lemma scan_step:
  assumes "1 \<le> numlen cfg"
  defines "N \<equiv> nat (numlen cfg)"
  shows "\<exists>s s'. scan cfg bs = (Reading, s) \<and> scan cfg (bs @ [b]) = (Reading, s') \<and>
     calls s' = calls s @
       (if IsDigit b \<and> length (window N (bs @ [b])) = N then [window N (bs @ [b])] else []) \<and>
     stdout s' = stdout s @
       (if IsDigit b \<and> length (window N (bs @ [b])) = N \<and>
           validate cfg (window N (bs @ [b])) = Some True
        then [Match (int (length bs) - numlen cfg) (newlines bs) (window N (bs @ [b]))]
        else [])"
proof -
  obtain s where s: "scan cfg bs = (Reading, s)" "nread s = int (length bs)"
    "nline s = newlines bs" "digits s = window N bs"
    using scan_invariant [OF assms(1), of bs] unfolding N_def by blast
  show ?thesis
  proof (cases "IsDigit b")
    case True
    then show ?thesis
      using s by (simp add: scan_snoc [OF s(1)] body_digit [OF assms(1) True] window_snoc N_def)
  next
    case False
    then show ?thesis
      using s by (simp add: scan_snoc [OF s(1)] body_nondigit)
  qed
qed

section \<open>The claims\<close>

subsection \<open>C1: the offset of a match\<close>

text \<open>
  Claim C1 says that the offset printed for a match is the 0-based offset of the first
  byte of the window, and that the input \<open>1234567812345670\<close>, with the default window
  length 16 and the Luhn algorithm, gives exactly one match, of the whole input, at
  offset 0 and line 0. Run on that input until end of file, the program returns 0 and
  prints the header and one match of the whole input at line 0, but the offset it
  prints is \<open>-1\<close>: \<^verbatim>\<open>nread-len(digits)-1\<close> is \<open>16 - 16 - 1\<close>, since \<^verbatim>\<open>digits\<close>
  holds the check digit as well.
\<close>

theorem luhn_example_offset:
  "mymain \<lparr>numlen = 16, mod10 = False, quiet = False\<rparr> 0 True
     (map got (bytes ''1234567812345670'') @ [ReadResult 0 (Some EOF) 0]) =
   (Exit 0,
    \<lparr>digits = bytes ''1234567812345670'', nline = 0, nread = 16,
     stdout = [Header, Match (- 1) 0 (bytes ''1234567812345670'')],
     calls = [bytes ''1234567812345670'']\<rparr>)"
  by (simp add: run_simps)

subsection \<open>C2: the line number of a match\<close>

text \<open>
  Claim C2 says that the line number of a match is one greater than the number of
  newlines strictly before the start of the match. On a newline followed by seventeen
  zeros the program prints two matches, both with line 1. For the second one, printed
  with offset 1 and starting at byte 2 of the input, exactly one newline lies before
  either position, so the claim asks for line 2.
\<close>

theorem line_number_counterexample:
  "mymain \<lparr>numlen = 16, mod10 = False, quiet = False\<rparr> 0 True
     (map got (bytes (CHR 0x0A # ''00000000000000000'')) @ [ReadResult 0 (Some EOF) 0]) =
   (Exit 0,
    \<lparr>digits = bytes ''0000000000000000'', nline = 1, nread = 18,
     stdout = [Header, Match 0 1 (bytes ''0000000000000000''),
               Match 1 1 (bytes ''0000000000000000'')],
     calls = [bytes ''0000000000000000'', bytes ''0000000000000000'']\<rparr>) \<and>
   newlines (take 1 (bytes (CHR 0x0A # ''00000000000000000''))) = 1 \<and>
   newlines (take 2 (bytes (CHR 0x0A # ''00000000000000000''))) = 1 \<and>
   (1::int) \<noteq> 1 + newlines (take 1 (bytes (CHR 0x0A # ''00000000000000000''))) \<and>
   (1::int) \<noteq> 1 + newlines (take 2 (bytes (CHR 0x0A # ''00000000000000000'')))"
  by (simp add: run_simps)

text \<open>
  Claim C2 as amended: whenever reading a byte prints a match, the window printed is
  the last \<^verbatim>\<open>numlen\<close> bytes read and the line number printed is the number of
  newlines strictly before the first byte of that window (lines are counted from 0).
\<close>

theorem match_line_counts_newlines_before_window:
  assumes "1 \<le> numlen cfg"
    and "stdout (snd (scan cfg (bs @ [b]))) \<noteq> stdout (snd (scan cfg bs))"
  shows "nat (numlen cfg) \<le> length bs + 1 \<and>
    (\<exists>off. stdout (snd (scan cfg (bs @ [b]))) =
       stdout (snd (scan cfg bs)) @
         [Match off
            (newlines (take (length bs + 1 - nat (numlen cfg)) (bs @ [b])))
            (drop (length bs + 1 - nat (numlen cfg)) (bs @ [b]))])"
proof -
  define N where "N = nat (numlen cfg)"
  define w where "w = window N (bs @ [b])"
  obtain s s' where st: "scan cfg bs = (Reading, s)" "scan cfg (bs @ [b]) = (Reading, s')"
    "stdout s' = stdout s @
       (if IsDigit b \<and> length w = N \<and> validate cfg w = Some True
        then [Match (int (length bs) - numlen cfg) (newlines bs) w] else [])"
    using scan_step [OF assms(1), of bs b] unfolding N_def w_def by blast
  have c: "IsDigit b" "length w = N" "validate cfg w = Some True"
    using assms(2) st by (auto split: if_splits)
  define xs where "xs = bs @ [b]"
  have full: "N \<le> length xs" "w = drop (length xs - N) xs"
    using window_full [of N xs] c(2) unfolding w_def xs_def by simp_all
  have "newlines (take (length xs - N) xs @ drop (length xs - N) xs) =
      newlines (take (length xs - N) xs) + newlines (drop (length xs - N) xs)"
    by (rule newlines_append)
  then have "newlines xs = newlines (take (length xs - N) xs) + newlines w"
    using full(2) by simp
  moreover have "newlines w = 0"
    unfolding w_def by (intro newlines_digits) (auto dest: window_digits)
  moreover have "newlines xs = newlines bs"
    using IsDigit_not_newline [OF c(1)] by (simp add: newlines_def xs_def)
  ultimately have nl: "newlines bs = newlines (take (length xs - N) xs)"
    by simp
  have len: "length xs - N = length bs + 1 - N" by (simp add: xs_def)
  have "stdout s' = stdout s @
      [Match (int (length bs) - numlen cfg)
         (newlines (take (length bs + 1 - N) (bs @ [b])))
         (drop (length bs + 1 - N) (bs @ [b]))]"
    using st(3) c full(2) nl unfolding len xs_def by simp
  then show ?thesis
    using full(1) st(1,2) unfolding N_def xs_def by auto
qed

theorem match_line_counts_newlines_before_window_witness:
  "1 \<le> numlen \<lparr>numlen = 3, mod10 = True, quiet = True\<rparr> \<and>
   stdout (snd (scan \<lparr>numlen = 3, mod10 = True, quiet = True\<rparr> (bytes (CHR 0x0A # ''12'') @ [51]))) \<noteq>
   stdout (snd (scan \<lparr>numlen = 3, mod10 = True, quiet = True\<rparr> (bytes (CHR 0x0A # ''12'')))) \<and>
   (\<exists>off. stdout (snd (scan \<lparr>numlen = 3, mod10 = True, quiet = True\<rparr> (bytes (CHR 0x0A # ''12'') @ [51]))) =
      stdout (snd (scan \<lparr>numlen = 3, mod10 = True, quiet = True\<rparr> (bytes (CHR 0x0A # ''12'')))) @
        [Match off 1 (bytes ''123'')])"
proof -
  have h1: "1 \<le> numlen \<lparr>numlen = 3, mod10 = True, quiet = True\<rparr>" by simp
  have h2: "stdout (snd (scan \<lparr>numlen = 3, mod10 = True, quiet = True\<rparr> (bytes (CHR 0x0A # ''12'') @ [51]))) \<noteq>
    stdout (snd (scan \<lparr>numlen = 3, mod10 = True, quiet = True\<rparr> (bytes (CHR 0x0A # ''12''))))"
    by (simp add: run_simps)
  show ?thesis
    using h1 h2 match_line_counts_newlines_before_window [OF h1 h2]
    by (simp add: bytes_def newlines_def)
qed

subsection \<open>C3: the check digit of the modulus-10 validator\<close>

text \<open>
  Claim C3: on a non-empty sequence of ASCII digits, \<^verbatim>\<open>mod10Valid\<close> returns true
  when the value of the last digit is the sum of the values of the digits before it
  modulo 10, and false for any other last digit.
\<close>

theorem mod10Valid_check_digit:
  assumes "ds \<noteq> []" and "\<forall>b\<in>set ds. IsDigit b"
  shows "mod10Valid ds = Some (uint (last ds) - 48 = (\<Sum>b\<leftarrow>butlast ds. uint b - 48) mod 10)"
proof -
  have "\<forall>b\<in>set (butlast ds). IsDigit b"
    using assms(2) by (auto dest: in_set_butlastD)
  then have "mod10_loop 0 (butlast ds) = (\<Sum>b\<leftarrow>butlast ds. uint b - 48) mod 10"
    using mod10_loop_sum [of 0 "butlast ds"] by simp
  moreover have "uint (last ds - 48) = uint (last ds) - 48"
    using assms by (intro digit_value) simp
  ultimately show ?thesis
    using assms(1) by (simp add: mod10Valid_def)
qed

theorem mod10Valid_check_digit_witness:
  "bytes ''1236'' \<noteq> [] \<and> list_all IsDigit (bytes ''1236'') \<and>
   mod10Valid (bytes ''1236'') = Some True \<and> mod10Valid (bytes ''1237'') = Some False"
proof -
  have a: "bytes ''1236'' \<noteq> []" and b: "bytes ''1237'' \<noteq> []"
    by (simp_all add: bytes_def)
  have c: "\<forall>b\<in>set (bytes ''1236''). IsDigit b" and d: "\<forall>b\<in>set (bytes ''1237''). IsDigit b"
    by (simp_all add: bytes_def IsDigit_def)
  show ?thesis
    using a c mod10Valid_check_digit [OF a c] mod10Valid_check_digit [OF b d]
    by (simp add: bytes_def list_all_iff)
qed

subsection \<open>C4: the window is never longer than the window length\<close>

text \<open>
  Claim C4: with a window length of at least 1, whatever the reads return, the slice
  \<^verbatim>\<open>digits\<close> never holds more than \<^verbatim>\<open>numlen\<close> bytes when a read is made, every
  window handed to a validator has exactly that length, and the trimming loop cuts a
  longer slice down to its last \<^verbatim>\<open>numlen\<close> bytes. In the scan of any bytes
  \<open>bs\<close> followed by a byte \<open>b\<close>: after \<open>bs\<close> the slice holds the digits at the end of
  \<open>bs\<close>, at most the last \<^verbatim>\<open>numlen\<close> of them; a digit \<open>b\<close> is appended and the front
  is dropped down to \<^verbatim>\<open>numlen\<close> bytes, so that a full window loses its first byte
  and stays full; any other \<open>b\<close> empties the slice.
\<close>

theorem window_never_exceeds_numlen:
  assumes "1 \<le> numlen cfg"
  shows "length (digits (snd (loop cfg rs (init cfg)))) \<le> nat (numlen cfg) \<and>
    (\<forall>w\<in>set (calls (snd (loop cfg rs (init cfg)))). length w = nat (numlen cfg)) \<and>
    (\<forall>ds. nat (numlen cfg) < length ds \<longrightarrow>
       trim (numlen cfg) ds = Some (drop (length ds - nat (numlen cfg)) ds) \<and>
       length (drop (length ds - nat (numlen cfg)) ds) = nat (numlen cfg)) \<and>
    (\<exists>s s'. scan cfg bs = (Reading, s) \<and> scan cfg (bs @ [b]) = (Reading, s') \<and>
       digits s = window (nat (numlen cfg)) bs \<and>
       length (digits s) \<le> nat (numlen cfg) \<and>
       digits s' =
         (if IsDigit b
          then drop (length (digits s) + 1 - nat (numlen cfg)) (digits s @ [b])
          else []) \<and>
       (IsDigit b \<and> length (digits s) = nat (numlen cfg) \<longrightarrow>
          digits s' = tl (digits s) @ [b] \<and> length (digits s') = nat (numlen cfg)))"
proof -
  define N where "N = nat (numlen cfg)"
  have N: "1 \<le> N" using assms by (simp add: N_def)
  obtain s where s: "scan cfg bs = (Reading, s)" "digits s = window N bs"
    using scan_invariant [OF assms, of bs] unfolding N_def by blast
  obtain s' where s': "scan cfg (bs @ [b]) = (Reading, s')" "digits s' = window N (bs @ [b])"
    using scan_invariant [OF assms, of "bs @ [b]"] unfolding N_def by blast
  have len: "length (digits s) \<le> N"
    unfolding s(2) by (simp add: window_def)
  have step: "digits s' =
      (if IsDigit b then drop (length (digits s) + 1 - N) (digits s @ [b]) else [])"
    unfolding s'(2) s(2) by (rule window_snoc)
  have full: "digits s' = tl (digits s) @ [b] \<and> length (digits s') = N"
    if d: "IsDigit b" and l: "length (digits s) = N"
  proof -
    have ne: "digits s \<noteq> []" using l N by auto
    have "digits s' = drop 1 (digits s @ [b])" using step d l by simp
    also have "\<dots> = tl (digits s) @ [b]" using ne by (cases "digits s") simp_all
    finally show ?thesis using l N by simp
  qed
  have scan_part: "\<exists>s s'. scan cfg bs = (Reading, s) \<and> scan cfg (bs @ [b]) = (Reading, s') \<and>
       digits s = window N bs \<and> length (digits s) \<le> N \<and>
       digits s' =
         (if IsDigit b then drop (length (digits s) + 1 - N) (digits s @ [b]) else []) \<and>
       (IsDigit b \<and> length (digits s) = N \<longrightarrow>
          digits s' = tl (digits s) @ [b] \<and> length (digits s') = N)"
    using s s'(1) len step full by blast
  have loop_part: "length (digits (snd (loop cfg rs (init cfg)))) \<le> N \<and>
    (\<forall>w\<in>set (calls (snd (loop cfg rs (init cfg)))). length w = N)"
    using loop_safe [OF assms, of "init cfg" rs, OF init_safe] unfolding N_def by simp
  have trim_part: "\<forall>ds. N < length ds \<longrightarrow>
       trim (numlen cfg) ds = Some (drop (length ds - N) ds) \<and>
       length (drop (length ds - N) ds) = N"
    using assms by (simp add: trim_nonneg N_def)
  show ?thesis
    using loop_part trim_part scan_part unfolding N_def by blast
qed

theorem window_never_exceeds_numlen_witness:
  "length (digits (snd (loop \<lparr>numlen = 3, mod10 = True, quiet = True\<rparr>
      (map got (bytes ''12345'')) (init \<lparr>numlen = 3, mod10 = True, quiet = True\<rparr>)))) \<le> 3 \<and>
   trim 3 (bytes ''12345'') = Some (bytes ''345'') \<and>
   digits (snd (scan \<lparr>numlen = 3, mod10 = True, quiet = True\<rparr> (bytes ''x1234''))) = bytes ''234'' \<and>
   digits (snd (scan \<lparr>numlen = 3, mod10 = True, quiet = True\<rparr> (bytes ''x1234'' @ [53]))) = bytes ''345'' \<and>
   digits (snd (scan \<lparr>numlen = 3, mod10 = True, quiet = True\<rparr> (bytes ''x1234'' @ [120]))) = []"
proof -
  have h: "1 \<le> numlen \<lparr>numlen = 3, mod10 = True, quiet = True\<rparr>" by simp
  note t = window_never_exceeds_numlen [OF h, of "map got (bytes ''12345'')" "bytes ''x1234''" 53]
  note u = window_never_exceeds_numlen [OF h, of "map got (bytes ''12345'')" "bytes ''x1234''" 120]
  have w: "window (nat 3) (bytes ''x1234'') = bytes ''234''"
    by (simp add: window_def bytes_def IsDigit_def)
  from t have "length (digits (snd (loop \<lparr>numlen = 3, mod10 = True, quiet = True\<rparr>
      (map got (bytes ''12345'')) (init \<lparr>numlen = 3, mod10 = True, quiet = True\<rparr>)))) \<le> 3"
    by simp
  moreover from t have "nat 3 < length (bytes ''12345'') \<longrightarrow>
      trim 3 (bytes ''12345'') = Some (drop (length (bytes ''12345'') - nat 3) (bytes ''12345''))"
    by simp
  then have "trim 3 (bytes ''12345'') = Some (bytes ''345'')"
    by (simp add: bytes_def)
  moreover from t w have "digits (snd (scan \<lparr>numlen = 3, mod10 = True, quiet = True\<rparr> (bytes ''x1234''))) = bytes ''234'' \<and>
   digits (snd (scan \<lparr>numlen = 3, mod10 = True, quiet = True\<rparr> (bytes ''x1234'' @ [53]))) = bytes ''345''"
    by (auto simp: bytes_def IsDigit_def)
  moreover from u have "digits (snd (scan \<lparr>numlen = 3, mod10 = True, quiet = True\<rparr> (bytes ''x1234'' @ [120]))) = []"
    by (auto simp: IsDigit_def)
  ultimately show ?thesis by simp
qed

subsection \<open>C5: one validation for every full window of a run of digits\<close>

text \<open>
  Claim C5: let a run of \<open>M\<close> digits follow the start of the input or a byte that is
  not a digit. While the run is read, the validator is called on the windows of length
  \<^verbatim>\<open>numlen\<close> that start at the positions \<open>0, ..., M - numlen\<close> of the run, once each
  and in this order; when \<open>M\<close> is less than \<^verbatim>\<open>numlen\<close> it is not called at all.
\<close>

theorem validator_called_at_every_window_of_run:
  assumes "1 \<le> numlen cfg" and "pre = [] \<or> \<not> IsDigit (last pre)"
    and "\<forall>b\<in>set run. IsDigit b"
  shows "calls (snd (scan cfg (pre @ run))) =
     calls (snd (scan cfg pre)) @
       map (\<lambda>i. take (nat (numlen cfg)) (drop i run)) [0..<length run + 1 - nat (numlen cfg)]"
  using assms(3)
proof (induction run rule: rev_induct)
  case Nil
  then show ?case using assms(1) by simp
next
  case (snoc b run)
  define N where "N = nat (numlen cfg)"
  have N: "1 \<le> N" using assms(1) by (simp add: N_def)
  have dig: "\<forall>b\<in>set run. IsDigit b" "IsDigit b" "\<forall>x\<in>set (run @ [b]). IsDigit x"
    using snoc.prems by simp_all
  define W where "W = window N ((pre @ run) @ [b])"
  have w: "W = drop (length run + 1 - N) (run @ [b])"
    using window_run [OF assms(2) dig(3), of N] by (simp add: W_def)
  have wl: "length W = N \<longleftrightarrow> N \<le> length run + 1"
    unfolding w by auto
  obtain s s' where st: "scan cfg (pre @ run) = (Reading, s)"
    "scan cfg ((pre @ run) @ [b]) = (Reading, s')"
    "calls s' = calls s @ (if IsDigit b \<and> length W = N then [W] else [])"
    using scan_step [OF assms(1), of "pre @ run" b] unfolding N_def W_def by blast
  have ih: "calls s = calls (snd (scan cfg pre)) @
      map (\<lambda>i. take N (drop i run)) [0..<length run + 1 - N]"
    using snoc.IH [OF dig(1)] st(1) by (simp add: N_def)
  have old: "map (\<lambda>i. take N (drop i (run @ [b]))) [0..<length run + 1 - N] =
      map (\<lambda>i. take N (drop i run)) [0..<length run + 1 - N]"
    by (rule map_cong) auto
  show ?case
  proof (cases "N \<le> length run + 1")
    case True
    then have up: "[0..<length (run @ [b]) + 1 - N] = [0..<length run + 1 - N] @ [length run + 1 - N]"
      by (simp add: Suc_diff_le)
    have "take N (drop (length run + 1 - N) (run @ [b])) = W"
      using True unfolding w by simp
    moreover have "calls s' = calls s @ [W]"
      using st(3) dig(2) wl True by simp
    ultimately show ?thesis
      using st(2) ih old unfolding up N_def [symmetric] by simp
  next
    case False
    then have "calls s' = calls s"
      using st(3) wl by simp
    then show ?thesis
      using st(2) ih False unfolding N_def [symmetric] by simp
  qed
qed

theorem validator_called_at_every_window_of_run_witness:
  "calls (snd (scan \<lparr>numlen = 3, mod10 = True, quiet = True\<rparr> (bytes ''a12345''))) =
     [bytes ''123'', bytes ''234'', bytes ''345''] \<and>
   calls (snd (scan \<lparr>numlen = 3, mod10 = True, quiet = True\<rparr> (bytes ''a12''))) = []"
proof -
  have h1: "1 \<le> numlen \<lparr>numlen = 3, mod10 = True, quiet = True\<rparr>" by simp
  have h2: "bytes ''a'' = [] \<or> \<not> IsDigit (last (bytes ''a''))"
    by (simp add: bytes_def IsDigit_def)
  have h3: "\<forall>b\<in>set (bytes ''12345''). IsDigit b" and h4: "\<forall>b\<in>set (bytes ''12''). IsDigit b"
    by (simp_all add: bytes_def IsDigit_def)
  have pre: "calls (snd (scan \<lparr>numlen = 3, mod10 = True, quiet = True\<rparr> (bytes ''a''))) = []"
    by (simp add: run_simps)
  show ?thesis
    using validator_called_at_every_window_of_run [OF h1 h2 h3]
      validator_called_at_every_window_of_run [OF h1 h2 h4] pre
    by (simp add: bytes_def upt_rec)
qed

subsection \<open>C6: a byte that is not a digit clears the window\<close>

text \<open>
  Claim C6: an iteration that has read a byte that is not an ASCII digit leaves
  \<^verbatim>\<open>digits\<close> empty, calls no validator and prints nothing.
\<close>

theorem nondigit_clears_window:
  assumes "\<not> IsDigit b"
  shows "\<exists>s'. body cfg b s = Some s' \<and> digits s' = [] \<and> calls s' = calls s \<and>
     stdout s' = stdout s"
  using assms by (simp add: body_nondigit)

theorem nondigit_clears_window_witness:
  "\<exists>s'. body \<lparr>numlen = 3, mod10 = True, quiet = True\<rparr> 120
       \<lparr>digits = bytes ''12'', nline = 0, nread = 2, stdout = [], calls = []\<rparr> = Some s' \<and>
     digits s' = [] \<and> calls s' = [] \<and> stdout s' = []"
proof -
  have h: "\<not> IsDigit 120" by (simp add: IsDigit_def)
  show ?thesis
    using nondigit_clears_window [OF h, of "\<lparr>numlen = 3, mod10 = True, quiet = True\<rparr>"
        "\<lparr>digits = bytes ''12'', nline = 0, nread = 2, stdout = [], calls = []\<rparr>"]
    by simp
qed

subsection \<open>C7: the values returned by mymain\<close>

text \<open>
  Claim C7: \<^verbatim>\<open>mymain\<close> returns 0 when a read reports end of file, in the state
  reached by the bytes read before it (so nothing is validated or printed for a window
  that is not full); it returns -3 on any other read error and -4 on a read of nothing
  without an error; it returns -1 when the one file named cannot be opened and -2 when
  more than one file is named. The five values differ from each other. The loop is
  taken with a window length of at least 1, with which no iteration panics.
\<close>

theorem exit_status:
  "(1 \<le> numlen cfg \<and> narg \<le> 1 \<and> (narg = 1 \<longrightarrow> opens) \<longrightarrow>
      mymain cfg narg opens (map got bs @ ReadResult n (Some EOF) x # rest) =
        (Exit 0, snd (scan cfg bs)) \<and>
      mymain cfg narg opens (map got bs @ ReadResult n (Some ReadFailure) x # rest) =
        (Exit (- 3), snd (scan cfg bs)) \<and>
      mymain cfg narg opens (map got bs @ ReadResult 0 None x # rest) =
        (Exit (- 4), snd (scan cfg bs))) \<and>
   (narg = 1 \<and> \<not> opens \<longrightarrow> fst (mymain cfg narg opens rs) = Exit (- 1)) \<and>
   (1 < narg \<longrightarrow> fst (mymain cfg narg opens rs) = Exit (- 2))"
proof -
  have "loop cfg (map got bs @ r # rest) (init cfg) = loop cfg (r # rest) (snd (scan cfg bs))"
    if n: "1 \<le> numlen cfg" for r
  proof -
    obtain s where "scan cfg bs = (Reading, s)"
      using scan_invariant [OF n, of bs] by blast
    then show ?thesis by (simp add: loop_append scan_def del: loop.simps)
  qed
  then show ?thesis by (auto simp: mymain_def)
qed

theorem exit_status_witness:
  "fst (mymain \<lparr>numlen = 3, mod10 = True, quiet = True\<rparr> 0 True
        (map got (bytes ''12'') @ [ReadResult 0 (Some EOF) 0])) = Exit 0 \<and>
   fst (mymain \<lparr>numlen = 3, mod10 = True, quiet = True\<rparr> 1 True
        (map got (bytes ''12'') @ [ReadResult 0 (Some ReadFailure) 0])) = Exit (- 3) \<and>
   fst (mymain \<lparr>numlen = 3, mod10 = True, quiet = True\<rparr> 0 True
        (map got (bytes ''12'') @ [ReadResult 0 None 0])) = Exit (- 4) \<and>
   fst (mymain \<lparr>numlen = 3, mod10 = True, quiet = True\<rparr> 1 False []) = Exit (- 1) \<and>
   fst (mymain \<lparr>numlen = 3, mod10 = True, quiet = True\<rparr> 2 True []) = Exit (- 2)"
  using exit_status [of "\<lparr>numlen = 3, mod10 = True, quiet = True\<rparr>" 0 True "bytes ''12''" 0 0 "[]" "[]"]
    exit_status [of "\<lparr>numlen = 3, mod10 = True, quiet = True\<rparr>" 1 True "bytes ''12''" 0 0 "[]" "[]"]
    exit_status [of "\<lparr>numlen = 3, mod10 = True, quiet = True\<rparr>" 1 False "bytes ''12''" 0 0 "[]" "[]"]
    exit_status [of "\<lparr>numlen = 3, mod10 = True, quiet = True\<rparr>" 2 True "bytes ''12''" 0 0 "[]" "[]"]
  by simp

subsection \<open>C8: only the ten ASCII digits enter the window\<close>

text \<open>
  Claim C8: with a window length of at least 1, an iteration appends the byte read to
  the window if it is one of the ten bytes \<open>0x30\<close> to \<open>0x39\<close>, the byte then being the
  last of the window, and leaves the window empty for each of the other 246 byte
  values.
\<close>

theorem only_ascii_digits_enter_window:
  assumes "1 \<le> numlen cfg"
  shows "\<exists>s'. body cfg b s = Some s' \<and>
     (if b \<in> {48, 49, 50, 51, 52, 53, 54, 55, 56, 57}
      then digits s' = drop (length (digits s) + 1 - nat (numlen cfg)) (digits s @ [b]) \<and>
           digits s' \<noteq> [] \<and> last (digits s') = b
      else digits s' = [])"
proof (cases "IsDigit b")
  case True
  have "length (digits s) + 1 - nat (numlen cfg) < length (digits s @ [b])"
    using assms by simp
  then have "drop (length (digits s) + 1 - nat (numlen cfg)) (digits s @ [b]) \<noteq> []"
    "last (drop (length (digits s) + 1 - nat (numlen cfg)) (digits s @ [b])) = b"
    by (simp_all only: last_drop last_snoc drop_eq_Nil not_le)
  then show ?thesis
    using True IsDigit_ascii [of b] by (simp add: body_digit [OF assms True])
next
  case False
  then show ?thesis
    using IsDigit_ascii [of b] by (simp add: body_nondigit)
qed

theorem only_ascii_digits_enter_window_witness:
  "(\<exists>s'. body \<lparr>numlen = 3, mod10 = True, quiet = True\<rparr> 53
       \<lparr>digits = bytes ''12'', nline = 0, nread = 2, stdout = [], calls = []\<rparr> = Some s' \<and>
     digits s' = bytes ''125'') \<and>
   (\<exists>s'. body \<lparr>numlen = 3, mod10 = True, quiet = True\<rparr> 217
       \<lparr>digits = bytes ''12'', nline = 0, nread = 2, stdout = [], calls = []\<rparr> = Some s' \<and>
     digits s' = [])"
proof -
  have h: "1 \<le> numlen \<lparr>numlen = 3, mod10 = True, quiet = True\<rparr>" by simp
  show ?thesis
    using only_ascii_digits_enter_window [OF h, of 53
        "\<lparr>digits = bytes ''12'', nline = 0, nread = 2, stdout = [], calls = []\<rparr>"]
      only_ascii_digits_enter_window [OF h, of 217
        "\<lparr>digits = bytes ''12'', nline = 0, nread = 2, stdout = [], calls = []\<rparr>"]
    by (auto simp: bytes_def)
qed

subsection \<open>C9: the order of the payload digits\<close>

text \<open>
  Claim C9: \<^verbatim>\<open>mod10Valid\<close> gives the same answer for two windows with the same check
  digit whose payloads are digits and permutations of each other.
\<close>

theorem mod10Valid_payload_order:
  assumes "mset p = mset q" and "\<forall>b\<in>set p. IsDigit b"
  shows "mod10Valid (p @ [c]) = mod10Valid (q @ [c])"
proof -
  have q: "\<forall>b\<in>set q. IsDigit b"
    using assms by (simp add: mset_eq_setD [of p q])
  have "(\<Sum>b\<leftarrow>p. uint b - 48) = (\<Sum>b\<leftarrow>q. uint b - 48)"
    using assms(1) by (rule sum_list_mset_cong)
  then have "mod10_loop 0 p = mod10_loop 0 q"
    using assms(2) q by (simp add: mod10_loop_sum)
  then show ?thesis by (simp add: mod10Valid_def)
qed

theorem mod10Valid_payload_order_witness:
  "mset (bytes ''123'') = mset (bytes ''312'') \<and> list_all IsDigit (bytes ''123'') \<and>
   mod10Valid (bytes ''1236'') = mod10Valid (bytes ''3126'')"
proof -
  have a: "mset (bytes ''123'') = mset (bytes ''312'')"
    by (simp add: bytes_def)
  have c: "\<forall>b\<in>set (bytes ''123''). IsDigit b"
    by (simp add: bytes_def IsDigit_def)
  show ?thesis
    using a c mod10Valid_payload_order [OF a c, of "of_char CHR ''6''"]
    by (simp add: bytes_def list_all_iff)
qed

subsection \<open>C10: the slice accesses of the modulus-10 validator\<close>

text \<open>
  Claim C10: \<^verbatim>\<open>mod10Valid\<close> returns a value on every non-empty window and panics
  on the empty one; with a window length of at least 1 the loop never panics, whatever
  the reads return, and calls the validators on non-empty windows of that length only.
\<close>

theorem mod10Valid_in_bounds:
  "(ds \<noteq> [] \<longrightarrow> mod10Valid ds \<noteq> None) \<and> mod10Valid [] = None \<and>
   (1 \<le> numlen cfg \<longrightarrow>
      fst (loop cfg rs (init cfg)) \<noteq> Panic \<and>
      (\<forall>w\<in>set (calls (snd (loop cfg rs (init cfg)))). w \<noteq> [] \<and> int (length w) = numlen cfg))"
proof -
  have "fst (loop cfg rs (init cfg)) \<noteq> Panic \<and>
      (\<forall>w\<in>set (calls (snd (loop cfg rs (init cfg)))). w \<noteq> [] \<and> int (length w) = numlen cfg)"
    if n: "1 \<le> numlen cfg"
  proof -
    have "w \<noteq> [] \<and> int (length w) = numlen cfg" if "length w = nat (numlen cfg)" for w :: "byte list"
      using n that by auto
    then show ?thesis
      using loop_safe [OF n, of "init cfg" rs, OF init_safe] by blast
  qed
  then show ?thesis by (simp add: mod10Valid_def)
qed

theorem mod10Valid_in_bounds_witness:
  "mod10Valid (bytes ''1236'') \<noteq> None \<and> mod10Valid [] = None \<and>
   fst (loop \<lparr>numlen = 3, mod10 = True, quiet = True\<rparr>
      (map got (bytes ''12345'')) (init \<lparr>numlen = 3, mod10 = True, quiet = True\<rparr>)) \<noteq> Panic"
  using mod10Valid_in_bounds [of "bytes ''1236''" "\<lparr>numlen = 3, mod10 = True, quiet = True\<rparr>"
      "map got (bytes ''12345'')"]
  by (simp add: bytes_def)

end
